theory Spec2Isabelle
  imports Complex_Main "HOL-Library.AList"
begin

section \<open>Text: characters, case folding and the tokenizer\<close>

text \<open>
  A Python \<open>str\<close> is a sequence of code points. The texts of the crawl are modelled over
  the code points below 256 (ASCII and the Latin-1 block): a \<open>char\<close> stands for the code
  point \<open>of_char c\<close>. \<open>lower_char\<close> is \<open>str.lower\<close> on one such code point, \<open>is_word_char\<close>
  is the class \<open>\w\<close> of \<open>re\<close> on a \<open>str\<close> pattern (alphanumeric or underscore), and
  \<open>is_letter\<close> is the class \<open>[a-zA-Z]\<close>.
\<close>

definition code_in :: "char \<Rightarrow> nat \<Rightarrow> nat \<Rightarrow> bool" where
  "code_in c lo hi = (lo \<le> (of_char c :: nat) \<and> (of_char c :: nat) \<le> hi)"

definition lower_char :: "char \<Rightarrow> char" where
  "lower_char c =
     (if code_in c 65 90 \<or> code_in c 192 214 \<or> code_in c 216 222
      then char_of ((of_char c :: nat) + 32) else c)"

definition lower :: "string \<Rightarrow> string" where
  "lower s = map lower_char s"

definition is_letter :: "char \<Rightarrow> bool" where
  "is_letter c = (code_in c 97 122 \<or> code_in c 65 90)"

definition is_word_char :: "char \<Rightarrow> bool" where
  "is_word_char c =
     (code_in c 48 57 \<or> code_in c 65 90 \<or> code_in c 95 95 \<or> code_in c 97 122 \<or>
      code_in c 170 170 \<or> code_in c 178 179 \<or> code_in c 181 181 \<or> code_in c 185 186 \<or>
      code_in c 188 190 \<or> code_in c 192 214 \<or> code_in c 216 246 \<or> code_in c 248 255)"

text \<open>
  All code points. A code point is a \<open>nat\<close>, and a string of arbitrary code points a
  \<open>nat list\<close>. Below 256 the classes and the case folding are the ones above. Beyond,
  they are tables of the Unicode database, which are parameters: \<open>uw\<close> tells which code
  points from 256 on are alphanumeric, and \<open>ulow\<close> is \<open>str.lower\<close> on a string that holds
  such a code point, where lower-casing can change the length of the string, can depend
  on the context, and can produce the letters \<open>a-z\<close>.
\<close>

definition in_range :: "nat \<Rightarrow> nat \<Rightarrow> nat \<Rightarrow> bool" where
  "in_range n lo hi = (lo \<le> n \<and> n \<le> hi)"

definition is_letter_u :: "nat \<Rightarrow> bool" where
  "is_letter_u n = (in_range n 97 122 \<or> in_range n 65 90)"

definition latin1_word :: "nat \<Rightarrow> bool" where
  "latin1_word n =
     (in_range n 48 57 \<or> in_range n 65 90 \<or> in_range n 95 95 \<or> in_range n 97 122 \<or>
      in_range n 170 170 \<or> in_range n 178 179 \<or> in_range n 181 181 \<or> in_range n 185 186 \<or>
      in_range n 188 190 \<or> in_range n 192 214 \<or> in_range n 216 246 \<or> in_range n 248 255)"

definition is_word_u :: "(nat \<Rightarrow> bool) \<Rightarrow> nat \<Rightarrow> bool" where
  "is_word_u uw n = (if n < 256 then latin1_word n else uw n)"

definition lower_latin1 :: "nat \<Rightarrow> nat" where
  "lower_latin1 n =
     (if in_range n 65 90 \<or> in_range n 192 214 \<or> in_range n 216 222 then n + 32 else n)"

definition lower_u :: "(nat list \<Rightarrow> nat list) \<Rightarrow> nat list \<Rightarrow> nat list" where
  "lower_u ulow s = (if list_all (\<lambda>n. n < 256) s then map lower_latin1 s else ulow s)"

text \<open>
  The pattern \<open>\b[a-zA-Z]+\b\<close>, for a class \<open>W\<close> of word characters and a class \<open>L\<close> of
  letters over any type of characters.

  The assertion \<open>\b\<close> holds at a position when exactly one of the characters before and
  after it is a word character; outside the string there is no word character.
\<close>

fun word_before :: "('c \<Rightarrow> bool) \<Rightarrow> 'c option \<Rightarrow> bool" where
  "word_before W None = False"
| "word_before W (Some c) = W c"

fun word_after :: "('c \<Rightarrow> bool) \<Rightarrow> 'c list \<Rightarrow> bool" where
  "word_after W [] = False"
| "word_after W (c # cs) = W c"

definition at_boundary :: "('c \<Rightarrow> bool) \<Rightarrow> 'c option \<Rightarrow> 'c list \<Rightarrow> bool" where
  "at_boundary W prev rest = (word_before W prev \<noteq> word_after W rest)"

text \<open>
  \<open>[a-zA-Z]+\b\<close> at the start of \<open>s\<close>: the greedy quantifier first takes the longest run of
  letters and gives characters back one at a time until \<open>\b\<close> holds after the \<open>k\<close> letters
  kept; it fails when no length from the longest down to 1 works.
\<close>

fun backtrack :: "('c \<Rightarrow> bool) \<Rightarrow> 'c list \<Rightarrow> nat \<Rightarrow> nat option" where
  "backtrack W s 0 = None"
| "backtrack W s (Suc k) =
     (if at_boundary W (Some (s ! k)) (drop (Suc k) s) then Some (Suc k) else backtrack W s k)"

definition match_here ::
    "('c \<Rightarrow> bool) \<Rightarrow> ('c \<Rightarrow> bool) \<Rightarrow> 'c option \<Rightarrow> 'c list \<Rightarrow> nat option" where
  "match_here W L prev s =
     (if at_boundary W prev s then backtrack W s (length (takeWhile L s)) else None)"

text \<open>
  \<open>re.findall\<close> scans left to right: a match at the current position is reported and the
  scan resumes at its end; otherwise the scan moves one character on. \<open>prev\<close> is the
  character before the current position.
\<close>

function findall ::
    "('c \<Rightarrow> bool) \<Rightarrow> ('c \<Rightarrow> bool) \<Rightarrow> 'c option \<Rightarrow> 'c list \<Rightarrow> 'c list list" where
  "findall W L prev [] = []"
| "findall W L prev (c # cs) =
     (case match_here W L prev (c # cs) of
        Some k \<Rightarrow>
          take k (c # cs) # findall W L (Some ((c # cs) ! (k - 1))) (drop k (c # cs))
      | None \<Rightarrow> findall W L (Some c) cs)"
  by pat_completeness auto
termination
proof (relation "measure (\<lambda>(W, L, prev, s). length s)")
  show "wf (measure (\<lambda>(W :: 'c \<Rightarrow> bool, L :: 'c \<Rightarrow> bool, prev :: 'c option, s :: 'c list).
      length s))"
    by simp
next
  fix W L :: "'c \<Rightarrow> bool" and prev :: "'c option" and c :: 'c and cs :: "'c list" and k :: nat
  assume m: "match_here W L prev (c # cs) = Some k"
  have "backtrack W s n = Some j \<Longrightarrow> 1 \<le> j" for s :: "'c list" and n j
    by (induction n) (auto split: if_splits)
  with m have "1 \<le> k"
    by (auto simp: match_here_def split: if_splits)
  then show "((W, L, Some ((c # cs) ! (k - 1)), drop k (c # cs)), (W, L, prev, c # cs))
      \<in> measure (\<lambda>(W, L, prev, s). length s)"
    by simp
next
  fix W L :: "'c \<Rightarrow> bool" and prev :: "'c option" and c :: 'c and cs :: "'c list"
  show "((W, L, Some c, cs), (W, L, prev, c # cs)) \<in> measure (\<lambda>(W, L, prev, s). length s)"
    by simp
qed

text \<open>
  \<open>words = re.findall(r'\b[a-zA-Z]+\b', text.lower())\<close>, the token sequence computed
  inside \<open>get_word_frequency\<close>: on a text of code points below 256, and on any text.
\<close>

definition tokenize :: "string \<Rightarrow> string list" where
  "tokenize text = findall is_word_char is_letter None (lower text)"

definition tokenize_u :: "(nat \<Rightarrow> bool) \<Rightarrow> (nat list \<Rightarrow> nat list) \<Rightarrow> nat list \<Rightarrow> nat list list" where
  "tokenize_u uw ulow text = findall (is_word_u uw) is_letter_u None (lower_u ulow text)"

section \<open>Counters\<close>

text \<open>
  A \<open>Counter\<close> is a \<open>dict\<close> from words to integer counts; a \<open>dict\<close> keeps its keys in
  insertion order, which the final sort can expose, so it is an association list.
  \<open>AList.update\<close> is \<open>d[k] = v\<close> (overwrite in place, or append a new key) and
  \<open>AList.delete\<close> is \<open>del d[k]\<close>. A missing key counts 0.
\<close>

type_synonym counter = "(string \<times> int) list"

definition counter_get :: "counter \<Rightarrow> string \<Rightarrow> int" where
  "counter_get c w = (case map_of c w of None \<Rightarrow> 0 | Some n \<Rightarrow> n)"

text \<open>\<open>Counter(words)\<close>: each element in turn, \<open>c[w] = c.get(w, 0) + 1\<close>.\<close>

definition count_elements :: "string list \<Rightarrow> counter \<Rightarrow> counter" where
  "count_elements ws c = fold (\<lambda>w c. AList.update w (counter_get c w + 1) c) ws c"

definition Counter :: "string list \<Rightarrow> counter" where
  "Counter ws = count_elements ws []"

text \<open>
  \<open>c.update(other)\<close> with another counter: \<open>c[elem] = count + c.get(elem, 0)\<close> for
  each item of \<open>other\<close>; an empty \<open>c\<close> takes the items of \<open>other\<close> as they are.
\<close>

definition counter_update :: "counter \<Rightarrow> counter \<Rightarrow> counter" where
  "counter_update c other =
     (if c = [] then other
      else fold (\<lambda>(elem, count) c. AList.update elem (count + counter_get c elem) c) other c)"

definition counter_total :: "('k \<times> int) list \<Rightarrow> int" where
  "counter_total c = sum_list (map snd c)"

definition get_word_frequency :: "string \<Rightarrow> counter" where
  "get_word_frequency text = Counter (tokenize text)"

section \<open>Normalisation and the percentile threshold\<close>

text \<open>
  The source computes \<open>(count / total_count) * 100\<close> in binary floating point. A float is
  a rational number and is compared as one, so a percentage is a \<open>rat\<close>; which rational
  the division and the multiplication, each rounded, yield for two integers is a
  parameter \<open>float_pct\<close> of \<open>normalize_with\<close>. \<open>percentage\<close> is the same operation without
  rounding, and \<open>normalize_word_frequency\<close> is \<open>normalize_with\<close> at it: the reading that sets
  rounding aside. Dividing by a zero total raises \<open>ZeroDivisionError\<close>, which the
  comprehension reaches at its first item.
\<close>

datatype error = ZeroDivisionError

type_synonym entries = "(string \<times> int \<times> rat) list"

definition percentage :: "int \<Rightarrow> int \<Rightarrow> rat" where
  "percentage count total_count = (of_int count / of_int total_count) * 100"

definition normalize_with ::
    "(int \<Rightarrow> int \<Rightarrow> rat) \<Rightarrow> ('k \<times> int) list \<Rightarrow> error + ('k \<times> int \<times> rat) list" where
  "normalize_with float_pct word_frequency =
     (let total_count = counter_total word_frequency in
      if word_frequency \<noteq> [] \<and> total_count = 0 then Inl ZeroDivisionError
      else Inr (map (\<lambda>(word, count). (word, count, float_pct count total_count))
                    word_frequency))"

definition normalize_word_frequency :: "counter \<Rightarrow> error + entries" where
  "normalize_word_frequency word_frequency = normalize_with percentage word_frequency"

definition apply_percentile_threshold ::
    "('k \<times> int \<times> rat) list \<Rightarrow> rat \<Rightarrow> ('k \<times> int \<times> rat) list" where
  "apply_percentile_threshold word_frequency percentile =
     filter (\<lambda>(word, count, perc). perc \<ge> percentile) word_frequency"

section \<open>The crawl\<close>

text \<open>
  \<open>fetch_wikipedia_page\<close> is the network: a parameter \<open>fetch\<close> that answers an article
  title with its text and links, or with \<open>None\<close> for \<open>(None, None)\<close>. The state is the
  two objects the crawl mutates, \<open>visited\<close> and \<open>word_frequency\<close>, and the lines it prints:
  one \<open>Fetching: article (Depth depth)\<close> before each call of \<open>fetch\<close>.

  The recursion need not end for an arbitrary \<open>fetch\<close> (a negative depth never reaches
  0), so the first argument bounds the nesting of calls: \<open>None\<close> means the bound was hit.
\<close>

record crawl_state =
  visited :: "string set"
  word_frequency :: counter
  printed :: "(string \<times> int) list"

type_synonym source = "string \<Rightarrow> (string \<times> string list) option"

fun crawl_wikipedia_article ::
    "nat \<Rightarrow> source \<Rightarrow> string \<Rightarrow> int \<Rightarrow> crawl_state \<Rightarrow> crawl_state option"
  and crawl_links ::
    "nat \<Rightarrow> source \<Rightarrow> string list \<Rightarrow> int \<Rightarrow> crawl_state \<Rightarrow> crawl_state option"
where
  "crawl_wikipedia_article 0 fetch article depth st = None"
| "crawl_wikipedia_article (Suc n) fetch article depth st =
     (if depth = 0 then Some st
      else if article \<in> visited st then Some st
      else
        let st1 = st\<lparr>visited := insert article (visited st),
                      printed := printed st @ [(article, depth)]\<rparr>
        in case fetch article of
             None \<Rightarrow> Some st1
           | Some (text, links) \<Rightarrow>
               crawl_links n fetch links depth
                 (st1\<lparr>word_frequency :=
                    counter_update (word_frequency st1) (get_word_frequency text)\<rparr>))"
| "crawl_links n fetch [] depth st = Some st"
| "crawl_links n fetch (link # links) depth st =
     (if link \<notin> visited st
      then case crawl_wikipedia_article n fetch link (depth - 1) st of
             None \<Rightarrow> None
           | Some st' \<Rightarrow> crawl_links n fetch links depth st'
      else crawl_links n fetch links depth st)"

text \<open>\<open>visited = set()\<close>, \<open>word_frequency = Counter()\<close>, as both request handlers start.\<close>

definition fresh :: crawl_state where
  "fresh = \<lparr>visited = {}, word_frequency = [], printed = []\<rparr>"

section \<open>The filtered and sorted request\<close>

text \<open>
  The steps of \<open>do_POST\<close> after the crawl: delete each lower-cased ignore word that is a
  key, normalise, apply the threshold, sort by decreasing count (\<open>sorted\<close> is stable,
  also with \<open>reverse=True\<close>). The steps do not depend on what the words are made of:
  they are given for keys and ignore words of any type \<open>'k\<close> of strings, with \<open>str.lower\<close>
  on it as the parameter \<open>str_lower\<close>, and for the strings of code points below 256 with
  \<open>lower\<close>.
\<close>

definition remove_ignored_with ::
    "('k \<Rightarrow> 'k) \<Rightarrow> 'k list \<Rightarrow> ('k \<times> 'v) list \<Rightarrow> ('k \<times> 'v) list" where
  "remove_ignored_with str_lower ignore_list counts =
     fold (\<lambda>ignore_word tab.
             if ignore_word \<in> set (map fst tab) then AList.delete ignore_word tab else tab)
          (map str_lower ignore_list) counts"

definition remove_ignored :: "string list \<Rightarrow> (string \<times> 'v) list \<Rightarrow> (string \<times> 'v) list" where
  "remove_ignored ignore_list counts = remove_ignored_with lower ignore_list counts"

definition sort_by_count :: "('k \<times> int \<times> rat) list \<Rightarrow> ('k \<times> int \<times> rat) list" where
  "sort_by_count es = sort_key (\<lambda>(word, count, perc). - count) es"

definition do_POST_pipeline_with ::
    "(int \<Rightarrow> int \<Rightarrow> rat) \<Rightarrow> ('k \<Rightarrow> 'k) \<Rightarrow> ('k \<times> int) list \<Rightarrow> 'k list \<Rightarrow> rat
       \<Rightarrow> error + ('k \<times> int \<times> rat) list" where
  "do_POST_pipeline_with float_pct str_lower counts ignore_list percentile =
     (case normalize_with float_pct (remove_ignored_with str_lower ignore_list counts) of
        Inl e \<Rightarrow> Inl e
      | Inr normalized \<Rightarrow>
          Inr (sort_by_count (apply_percentile_threshold normalized percentile)))"

text \<open>The same steps without rounding, on strings of code points below 256.\<close>

definition do_POST_pipeline :: "counter \<Rightarrow> string list \<Rightarrow> rat \<Rightarrow> error + entries" where
  "do_POST_pipeline counts ignore_list percentile =
     do_POST_pipeline_with percentage lower counts ignore_list percentile"

section \<open>The tokenizer as the specification words it\<close>

text \<open>
  \<open>runs P s\<close> lists the maximal runs of characters of \<open>s\<close> that satisfy \<open>P\<close>, from left
  to right.
\<close>

function runs :: "('c \<Rightarrow> bool) \<Rightarrow> 'c list \<Rightarrow> 'c list list" where
  "runs P [] = []"
| "runs P (c # cs) =
     (if P c then (c # takeWhile P cs) # runs P (dropWhile P cs) else runs P cs)"
  by pat_completeness auto
termination
  by (relation "measure (\<lambda>(P, s). length s)")
     (auto simp: length_dropWhile_le less_Suc_eq_le)

text \<open>
  The tokenizer of the specification: every maximal run of alphabetic characters,
  lower-cased, everything else a separator.
\<close>

definition spec_tokenize :: "string \<Rightarrow> string list" where
  "spec_tokenize text = map lower (runs is_letter text)"

text \<open>
  The words of a text in the sense of \<open>\b\<close>: the maximal runs of word characters
  (letters, digits, underscore, other alphanumerics), of which those made of letters
  only are kept.
\<close>

definition letter_words :: "('c \<Rightarrow> bool) \<Rightarrow> ('c \<Rightarrow> bool) \<Rightarrow> 'c list \<Rightarrow> 'c list list" where
  "letter_words W L s = filter (list_all L) (runs W s)"

section \<open>Invariants and auxiliary notions\<close>

text \<open>
  The invariant of a frequency table: every key that is present has a count of at
  least 1. A counter built from tokens has it, and the crawl and the exclusion keep it.
\<close>

definition positive_counts :: "('k \<times> int) list \<Rightarrow> bool" where
  "positive_counts c = list_all (\<lambda>e. 1 \<le> snd e) c"

text \<open>
  \<open>grows st st'\<close>: from \<open>st\<close> to \<open>st'\<close> the visited set, the set of keys of the table
  and the count of every word have not shrunk.
\<close>

definition grows :: "crawl_state \<Rightarrow> crawl_state \<Rightarrow> bool" where
  "grows st st' =
     (visited st \<subseteq> visited st'
      \<and> (\<forall>w. counter_get (word_frequency st) w \<le> counter_get (word_frequency st') w)
      \<and> fst ` set (word_frequency st) \<subseteq> fst ` set (word_frequency st'))"

text \<open>
  \<open>fetched_once st\<close>: no article was requested twice, and every requested article is in
  the visited set.
\<close>

definition fetched_once :: "crawl_state \<Rightarrow> bool" where
  "fetched_once st =
     (distinct (map fst (printed st)) \<and> set (map fst (printed st)) \<subseteq> visited st)"

text \<open>A finite link graph: all links that the source ever returns lie in a finite set.\<close>

definition closed_graph :: "source \<Rightarrow> string set \<Rightarrow> bool" where
  "closed_graph fetch V =
     (finite V \<and> (\<forall>a t links. fetch a = Some (t, links) \<longrightarrow> set links \<subseteq> V))"

text \<open>
  A cyclic source for the examples: \<open>A\<close> links to \<open>B\<close> and to itself, \<open>B\<close> links back to
  \<open>A\<close> and to itself.
\<close>

definition two_cycle :: source where
  "two_cycle a =
     (if a = ''A'' then Some (''alpha beta'', [''B'', ''A''])
      else if a = ''B'' then Some (''beta'', [''A'', ''B''])
      else None)"

text \<open>
  The pipeline in the order the specification gives: normalise against the whole
  table, then exclude, then apply the threshold, then sort.
\<close>

definition spec_pipeline :: "counter \<Rightarrow> string list \<Rightarrow> rat \<Rightarrow> error + entries" where
  "spec_pipeline counts ignore_list percentile =
     (case normalize_word_frequency counts of
        Inl e \<Rightarrow> Inl e
      | Inr normalized \<Rightarrow>
          Inr (sort_by_count
                 (apply_percentile_threshold (remove_ignored ignore_list normalized) percentile)))"

section \<open>Properties of the tokenizer\<close>

lemma letter_is_word: "is_letter c \<Longrightarrow> is_word_char c"
  by (auto simp: is_letter_def is_word_char_def)

lemma letter_is_word_u: "is_letter_u n \<Longrightarrow> is_word_u uw n"
  by (auto simp: is_letter_u_def is_word_u_def latin1_word_def in_range_def)

lemma backtrack_None:
  "\<forall>j. 1 \<le> j \<and> j \<le> k \<longrightarrow> \<not> at_boundary W (Some (s ! (j - 1))) (drop j s) \<Longrightarrow>
   backtrack W s k = None"
  by (induction k) auto

lemma takeWhile_nth_holds: "j < length (takeWhile P s) \<Longrightarrow> P (s ! j)"
  by (metis nth_mem set_takeWhileD takeWhile_nth)

text \<open>Between two letters of one run \<open>\b\<close> never holds, so giving letters back cannot help.\<close>

lemma inner_no_boundary:
  assumes LW: "\<And>c. L c \<Longrightarrow> W c"
    and "1 \<le> j" "j < length (takeWhile L s)"
  shows "\<not> at_boundary W (Some (s ! (j - 1))) (drop j s)"
proof -
  have len: "length (takeWhile L s) \<le> length s" by (rule length_takeWhile_le)
  have a: "L (s ! (j - 1))"
    using assms(2,3) takeWhile_nth_holds[of "j - 1" L s] by simp
  have b: "L (s ! j)"
    using assms(2,3) takeWhile_nth_holds[of j L s] by simp
  have "drop j s = s ! j # drop (Suc j) s"
    using assms(2,3) len by (simp add: Cons_nth_drop_Suc)
  then show ?thesis using a b by (simp add: at_boundary_def LW)
qed

lemma match_here_letter:
  assumes LW: "\<And>c. L c \<Longrightarrow> W c"
    and "\<not> word_before W prev" "L c"
  shows "match_here W L prev (c # cs) =
     (if word_after W (dropWhile L (c # cs)) then None
      else Some (length (takeWhile L (c # cs))))"
proof -
  let ?s = "c # cs"
  let ?n = "length (takeWhile L ?s)"
  obtain m where m: "?n = Suc m" using assms(3) by simp
  have last: "L (?s ! m)" using m takeWhile_nth_holds[of m L ?s] by simp
  have bnd: "at_boundary W prev ?s" using assms(2,3) by (simp add: at_boundary_def LW)
  have dr: "drop (Suc m) ?s = dropWhile L ?s"
    using m by (metis dropWhile_eq_drop)
  have top: "at_boundary W (Some (?s ! m)) (drop (Suc m) ?s) = (\<not> word_after W (dropWhile L ?s))"
    using last dr by (simp add: at_boundary_def LW)
  have "\<forall>j. 1 \<le> j \<and> j \<le> m \<longrightarrow> \<not> at_boundary W (Some (?s ! (j - 1))) (drop j ?s)"
    using m inner_no_boundary[of L W _ ?s, OF LW] by (simp del: takeWhile.simps)
  then have rest: "backtrack W ?s m = None" by (rule backtrack_None)
  have "match_here W L prev ?s = backtrack W ?s (Suc m)"
    using bnd m by (simp add: match_here_def)
  also have "\<dots> = (if word_after W (dropWhile L ?s) then None else Some (Suc m))"
    using top rest by simp
  finally show ?thesis using m by simp
qed

lemma match_here_no_letter: "\<not> L c \<Longrightarrow> match_here W L prev (c # cs) = None"
  by (simp add: match_here_def)

lemma match_here_inside:
  "word_before W prev \<Longrightarrow> W c \<Longrightarrow> match_here W L prev (c # cs) = None"
  by (simp add: match_here_def at_boundary_def)

lemma letter_words_skip: "\<not> W c \<Longrightarrow> letter_words W L (c # cs) = letter_words W L cs"
  by (simp add: letter_words_def)

lemma letter_words_run:
  "W c \<Longrightarrow> letter_words W L (c # cs) =
     (if list_all L (takeWhile W (c # cs)) then [takeWhile W (c # cs)] else [])
       @ letter_words W L (dropWhile W (c # cs))"
  by (simp add: letter_words_def)

lemma mixed_run:
  assumes LW: "\<And>c. L c \<Longrightarrow> W c"
  shows "word_after W (dropWhile L s) \<Longrightarrow> \<not> list_all L (takeWhile W s)"
  by (induction s) (auto simp: LW split: if_splits)

lemma pure_run:
  assumes LW: "\<And>c. L c \<Longrightarrow> W c"
  shows "\<not> word_after W (dropWhile L s) \<Longrightarrow>
     takeWhile W s = takeWhile L s \<and> dropWhile W s = dropWhile L s"
  by (induction s) (auto simp: LW split: if_splits)

lemma dropWhile_not_after: "\<not> word_after W s \<Longrightarrow> dropWhile W s = s"
  by (cases s) auto

text \<open>
  What the scan reports from a position on: the letter-only words of the rest, after
  the remainder of the word the position is inside of, if it is inside one.
\<close>

lemma findall_letter_words:
  assumes LW: "\<And>c. L c \<Longrightarrow> W c"
  shows "findall W L prev s
     = letter_words W L (if word_before W prev then dropWhile W s else s)"
  using LW
proof (induction W L prev s rule: findall.induct)
  case (1 W L prev)
  show ?case by (simp add: letter_words_def)
next
  case (2 W L prev c cs)
  note LW = "2.prems"
  let ?s = "c # cs"
  show ?case
  proof (cases "L c \<and> \<not> word_before W prev")
    case False
    have "W c" if "L c" using that by (rule LW)
    with False have none: "match_here W L prev ?s = None"
      by (cases "L c") (auto simp: match_here_no_letter match_here_inside)
    then have step: "findall W L prev ?s = findall W L (Some c) cs" by simp
    have ih: "findall W L (Some c) cs
        = letter_words W L (if W c then dropWhile W cs else cs)"
      using "2.IH"(1)[OF none LW] by simp
    show ?thesis
    proof (cases "W c")
      case True
      with False step ih LW show ?thesis
        by (auto simp: letter_words_run)
    next
      case False
      with step ih show ?thesis by (simp add: letter_words_skip)
    qed
  next
    case True
    then have Lc: "L c" and nb: "\<not> word_before W prev" by simp_all
    have Wc: "W c" using Lc by (rule LW)
    show ?thesis
    proof (cases "word_after W (dropWhile L ?s)")
      case True
      then have none: "match_here W L prev ?s = None"
        using match_here_letter[of L W prev c cs, OF LW nb Lc] by simp
      have ih: "findall W L (Some c) cs = letter_words W L (dropWhile W cs)"
        using "2.IH"(1)[OF none LW] Wc by simp
      have "\<not> list_all L (takeWhile W ?s)"
        using mixed_run[of L W ?s, OF LW True] .
      then show ?thesis using none ih nb Wc by (simp add: letter_words_run)
    next
      case False
      let ?n = "length (takeWhile L ?s)"
      have some: "match_here W L prev ?s = Some ?n"
        using match_here_letter[of L W prev c cs, OF LW nb Lc] False by simp
      have pos: "0 < ?n" using Lc by simp
      have lastL: "L (?s ! (?n - 1))"
        using pos takeWhile_nth_holds[of "?n - 1" L ?s] by (simp del: takeWhile.simps)
      have tk: "take ?n ?s = takeWhile L ?s" by (metis takeWhile_eq_take)
      have dr: "drop ?n ?s = dropWhile L ?s" by (metis dropWhile_eq_drop)
      have ih: "findall W L (Some (?s ! (?n - 1))) (drop ?n ?s)
          = letter_words W L (dropWhile L ?s)"
        using "2.IH"(2)[OF some LW] lastL False dr LW[OF lastL]
        by (simp add: dropWhile_not_after del: dropWhile.simps)
      have pr: "takeWhile W ?s = takeWhile L ?s" "dropWhile W ?s = dropWhile L ?s"
        using pure_run[of L W ?s, OF LW False] by simp_all
      have lhs: "findall W L prev ?s
          = takeWhile L ?s # letter_words W L (dropWhile L ?s)"
        using some ih tk
        by (simp del: takeWhile.simps dropWhile.simps take_Suc_Cons drop_Suc_Cons nth_Cons_Suc)
      have all: "list_all L (takeWhile L ?s)"
        by (simp add: list_all_iff del: takeWhile.simps) (meson set_takeWhileD)
      have rhs: "letter_words W L ?s
          = takeWhile L ?s # letter_words W L (dropWhile L ?s)"
        unfolding letter_words_run[of W c L cs, OF Wc] pr using all by simp
      show ?thesis using lhs rhs nb by simp
    qed
  qed
qed

text \<open>Case folding below 256 keeps the classes, and the letters it yields are lower-case.\<close>

lemma code_lower:
  "(of_char (lower_char c) :: nat) =
     (if code_in c 65 90 \<or> code_in c 192 214 \<or> code_in c 216 222
      then of_char c + 32 else of_char c)"
  by (auto simp: lower_char_def code_in_def)

lemma lower_char_letter: "is_letter (lower_char c) = is_letter c"
  unfolding is_letter_def code_in_def code_lower by auto

lemma lower_char_word: "is_word_char (lower_char c) = is_word_char c"
  unfolding is_word_char_def code_in_def code_lower by auto

lemma lower_char_lowercase: "is_letter (lower_char c) \<Longrightarrow> code_in (lower_char c) 97 122"
  unfolding is_letter_def code_in_def code_lower by (auto split: if_splits)

lemma runs_parts: "x \<in> set (runs P s) \<Longrightarrow> x \<noteq> [] \<and> set x \<subseteq> {c \<in> set s. P c}"
proof (induction P s rule: runs.induct)
  case (1 P)
  then show ?case by simp
next
  case (2 P c cs)
  then show ?case
    by (auto split: if_splits dest: set_takeWhileD set_dropWhileD)
qed

lemma runs_cong: "\<forall>c\<in>set s. P c = Q c \<Longrightarrow> runs P s = runs Q s"
proof (induction P s rule: runs.induct)
  case (1 P)
  show ?case by simp
next
  case (2 P c cs)
  have tw: "takeWhile P cs = takeWhile Q cs" using "2.prems" by (intro takeWhile_cong) auto
  have dw: "dropWhile P cs = dropWhile Q cs" using "2.prems" by (intro dropWhile_cong) auto
  have sub: "\<forall>c\<in>set (dropWhile P cs). P c = Q c"
    using "2.prems" by (auto dest: set_dropWhileD)
  show ?case
  proof (cases "P c")
    case True
    with "2.IH"(1)[OF True sub] "2.prems" tw dw show ?thesis by simp
  next
    case False
    with "2.IH"(2)[OF False] "2.prems" show ?thesis by simp
  qed
qed

lemma runs_map: "(\<And>c. P (f c) = Q c) \<Longrightarrow> runs P (map f s) = map (map f) (runs Q s)"
proof (induction Q s rule: runs.induct)
  case (1 Q)
  show ?case by simp
next
  case (2 Q c cs)
  have pf: "P \<circ> f = Q" using "2.prems" by (simp add: fun_eq_iff)
  show ?case
  proof (cases "Q c")
    case True
    with "2.IH"(1)[OF True "2.prems"] "2.prems" pf show ?thesis
      by (simp add: takeWhile_map dropWhile_map)
  next
    case False
    with "2.IH"(2)[OF False "2.prems"] "2.prems" show ?thesis by simp
  qed
qed

lemma tokenize_letter_words: "tokenize text = letter_words is_word_char is_letter (lower text)"
  unfolding tokenize_def
  using findall_letter_words[of is_letter is_word_char None "lower text"] letter_is_word
  by simp

lemma tokenize_u_letter_words:
  "tokenize_u uw ulow text = letter_words (is_word_u uw) is_letter_u (lower_u ulow text)"
  unfolding tokenize_u_def
  using findall_letter_words[of is_letter_u "is_word_u uw" None "lower_u ulow text"]
    letter_is_word_u
  by simp

lemma tokens_u_letters:
  assumes "t \<in> set (tokenize_u uw ulow text)"
  shows "t \<noteq> [] \<and> list_all is_letter_u t"
proof -
  from assms have m: "t \<in> set (runs (is_word_u uw) (lower_u ulow text))"
    and l: "list_all is_letter_u t"
    by (simp_all add: tokenize_u_letter_words letter_words_def)
  from runs_parts[OF m] l show ?thesis by simp
qed

lemma tokens_lowercase:
  assumes "t \<in> set (tokenize text)"
  shows "t \<noteq> [] \<and> (\<forall>c\<in>set t. code_in c 97 122)"
proof -
  from assms have m: "t \<in> set (runs is_word_char (lower text))" and l: "list_all is_letter t"
    by (simp_all add: tokenize_letter_words letter_words_def)
  from runs_parts[OF m] have ne: "t \<noteq> []" and sub: "set t \<subseteq> set (lower text)" by auto
  have "code_in c 97 122" if "c \<in> set t" for c
  proof -
    from that sub obtain d where "c = lower_char d" by (auto simp: lower_def)
    moreover from that l have "is_letter c" by (simp add: list_all_iff)
    ultimately show ?thesis using lower_char_lowercase by simp
  qed
  with ne show ?thesis by simp
qed

lemma tokenize_no_letters:
  assumes "\<forall>c\<in>set text. \<not> is_letter c"
  shows "tokenize text = []"
proof -
  have "\<not> list_all is_letter t" if "t \<in> set (runs is_word_char (lower text))" for t
  proof -
    from runs_parts[OF that] obtain c where c: "c \<in> set t" "c \<in> set (lower text)"
      by (cases t) auto
    then obtain d where "d \<in> set text" "c = lower_char d" by (auto simp: lower_def)
    with assms have "\<not> is_letter c" by (simp add: lower_char_letter)
    with c show ?thesis by (auto simp: list_all_iff)
  qed
  then show ?thesis
    by (simp add: tokenize_letter_words letter_words_def filter_empty_conv)
qed

lemma tokenize_clean_text:
  assumes "\<forall>c\<in>set text. is_word_char c \<longrightarrow> is_letter c"
  shows "tokenize text = spec_tokenize text"
proof -
  have eq: "\<forall>c\<in>set text. is_word_char c = is_letter c"
    using assms letter_is_word by blast
  have "runs is_word_char (map lower_char s) = map (map lower_char) (runs is_word_char s)" for s
    using lower_char_word by (rule runs_map)
  then have "runs is_word_char (lower text) = map lower (runs is_word_char text)"
    by (simp add: lower_def[abs_def])
  also have "\<dots> = map lower (runs is_letter text)"
    using eq runs_cong by metis
  finally have r: "runs is_word_char (lower text) = spec_tokenize text"
    by (simp add: spec_tokenize_def)
  have "list_all is_letter t" if "t \<in> set (spec_tokenize text)" for t
  proof -
    from that obtain u where u: "u \<in> set (runs is_letter text)" "t = lower u"
      by (auto simp: spec_tokenize_def)
    from runs_parts[OF u(1)] have "\<forall>c\<in>set u. is_letter c" by auto
    with u(2) show ?thesis by (simp add: list_all_iff lower_def lower_char_letter)
  qed
  then have "filter (list_all is_letter) (spec_tokenize text) = spec_tokenize text"
    by (simp add: filter_id_conv)
  with r show ?thesis by (simp add: tokenize_letter_words letter_words_def)
qed

text \<open>
  On code points below 256 the two tokenizers are one function: the classes and the
  case folding agree, whatever the tables beyond 255 are.
\<close>

lemma of_char_below: "(of_char c :: nat) < 256"
  by (cases c) (simp add: of_char_def)

lemma classes_agree:
  "is_letter_u (of_char c) = is_letter c"
  "is_word_u uw (of_char c) = is_word_char c"
  "lower_latin1 (of_char c) = of_char (lower_char c)"
  using of_char_below[of c]
  by (auto simp: is_letter_u_def is_letter_def is_word_u_def latin1_word_def is_word_char_def
      lower_latin1_def code_lower in_range_def code_in_def)

lemma lower_u_below: "lower_u ulow (map of_char s) = map of_char (lower s)"
  by (simp add: lower_u_def lower_def list_all_iff of_char_below classes_agree)

lemma tokenize_u_below:
  "tokenize_u uw ulow (map of_char s) = map (map of_char) (tokenize s)"
proof -
  have r: "runs (is_word_u uw) (map of_char (lower s))
      = map (map of_char) (runs is_word_char (lower s))"
    using classes_agree(2) by (rule runs_map)
  have l: "list_all is_letter_u (map of_char t) = list_all is_letter t" for t
    by (simp add: list_all_iff classes_agree)
  show ?thesis
    by (simp add: tokenize_u_letter_words tokenize_letter_words letter_words_def
        lower_u_below r filter_map comp_def l)
qed

text \<open>
  The sign for Kelvin, code point 8490, is no letter of \<open>[a-zA-Z]\<close>, but \<open>str.lower\<close> turns
  it into \<open>k\<close>, code point 107, which is a token.
\<close>

lemma kelvin_sign_token: "ulow [8490] = [107] \<Longrightarrow> tokenize_u uw ulow [8490] = [[107]]"
  by (simp add: tokenize_u_letter_words letter_words_def lower_u_def is_word_u_def
      latin1_word_def is_letter_u_def in_range_def)

text \<open>
  C2, as stated, fails: a run of letters that touches a digit or an underscore is not a
  token, because \<open>\b\<close> does not hold between two word characters. On
  \<open>abc123 foo_bar\<close> the source finds no token at all, where the tokenizer of the
  specification finds three.
\<close>

theorem tokenize_counterexample:
  "tokenize ''abc123 foo_bar'' = []
   \<and> spec_tokenize ''abc123 foo_bar'' = [''abc'', ''foo'', ''bar'']"
  by code_simp

text \<open>
  C2, amended. For every input string, \<open>tokenize\<close> yields, in their left-to-right order,
  exactly the maximal runs of word characters (alphanumeric characters and the
  underscore) of the lower-cased text \<open>text.lower()\<close> that consist of the letters \<open>a-z\<close>,
  \<open>A-Z\<close> only: characters that are not word characters separate tokens, while a run of
  letters adjacent to a digit, an underscore or another alphanumeric character yields
  no token; every token is a non-empty string of such letters. For an input of code
  points below 256, where \<open>text.lower()\<close> works character by character, every token is a
  string of lower-case letters, an input all of whose word characters are letters is
  tokenized as the specification says, and an empty or wholly non-alphabetic input
  yields the empty sequence.
\<close>

theorem tokenize_letter_only_words:
  "tokenize_u uw ulow utext
     = filter (list_all is_letter_u) (runs (is_word_u uw) (lower_u ulow utext))
   \<and> (\<forall>t\<in>set (tokenize_u uw ulow utext). t \<noteq> [] \<and> list_all is_letter_u t)
   \<and> tokenize_u uw ulow (map of_char text) = map (map of_char) (tokenize text)
   \<and> tokenize text = filter (list_all is_letter) (runs is_word_char (lower text))
   \<and> (\<forall>t\<in>set (tokenize text). t \<noteq> [] \<and> (\<forall>c\<in>set t. code_in c 97 122))
   \<and> ((\<forall>c\<in>set text. is_word_char c \<longrightarrow> is_letter c) \<longrightarrow> tokenize text = spec_tokenize text)
   \<and> ((\<forall>c\<in>set text. \<not> is_letter c) \<longrightarrow> tokenize text = [])"
  using tokenize_u_letter_words[of uw ulow utext] tokens_u_letters[of _ uw ulow utext]
    tokenize_u_below[of uw ulow "text"]
    tokenize_letter_words[of "text"] tokens_lowercase[of _ "text"]
    tokenize_clean_text[of "text"] tokenize_no_letters[of "text"]
  by (simp add: letter_words_def)

theorem tokenize_letter_only_words_witness:
  "tokenize ''Hi, you'' = [''hi'', ''you''] \<and> spec_tokenize ''Hi, you'' = [''hi'', ''you'']
   \<and> list_all (\<lambda>t. t \<noteq> [] \<and> list_all (\<lambda>c. code_in c 97 122) t) (tokenize ''Hi, you'')
   \<and> tokenize ''12_!'' = []
   \<and> tokenize_u (\<lambda>n. False) (\<lambda>s. s) [72, 105, 44, 32, 121, 111, 117]
       = [[104, 105], [121, 111, 117]]
   \<and> list_all (\<lambda>t. t \<noteq> [] \<and> list_all is_letter_u t)
        (tokenize_u (\<lambda>n. False) (\<lambda>s. s) [72, 105, 44, 32, 121, 111, 117])"
proof -
  have a: "\<forall>c\<in>set ''Hi, you''. is_word_char c \<longrightarrow> is_letter c" by code_simp
  have b: "\<forall>c\<in>set ''12_!''. \<not> is_letter c" by code_simp
  have c: "spec_tokenize ''Hi, you'' = [''hi'', ''you'']" by code_simp
  have "tokenize ''Hi, you'' = spec_tokenize ''Hi, you''"
    using tokenize_letter_only_words[of _ _ _ "''Hi, you''"] a by blast
  with c have t1: "tokenize ''Hi, you'' = [''hi'', ''you'']" by simp
  have "\<forall>t\<in>set (tokenize ''Hi, you''). t \<noteq> [] \<and> (\<forall>c\<in>set t. code_in c 97 122)"
    using tokenize_letter_only_words[of _ _ _ "''Hi, you''"] by blast
  then have l: "list_all (\<lambda>t. t \<noteq> [] \<and> list_all (\<lambda>c. code_in c 97 122) t) (tokenize ''Hi, you'')"
    by (simp add: list_all_iff)
  have t2: "tokenize ''12_!'' = []"
    using tokenize_letter_only_words[of _ _ _ "''12_!''"] b by blast
  have m: "map of_char ''Hi, you'' = [72, 105, 44, 32, 121, 111, 117 :: nat]" by simp
  have "tokenize_u (\<lambda>n. False) (\<lambda>s. s) (map of_char ''Hi, you'')
      = map (map of_char) (tokenize ''Hi, you'')"
    using tokenize_letter_only_words[of "\<lambda>n. False" "\<lambda>s. s" _ "''Hi, you''"] by blast
  then have u1: "tokenize_u (\<lambda>n. False) (\<lambda>s. s) [72, 105, 44, 32, 121, 111, 117]
      = [[104, 105], [121, 111, 117]]"
    unfolding m t1 by simp
  have "\<forall>t\<in>set (tokenize_u (\<lambda>n. False) (\<lambda>s. s) [72, 105, 44, 32, 121, 111, 117]).
      t \<noteq> [] \<and> list_all is_letter_u t"
    using tokenize_letter_only_words[of "\<lambda>n. False" "\<lambda>s. s" "[72, 105, 44, 32, 121, 111, 117]"]
    by blast
  then have u2: "list_all (\<lambda>t. t \<noteq> [] \<and> list_all is_letter_u t)
        (tokenize_u (\<lambda>n. False) (\<lambda>s. s) [72, 105, 44, 32, 121, 111, 117])"
    by (simp add: list_all_iff)
  show ?thesis using c t1 t2 l u1 u2 by blast
qed

section \<open>Properties of counters\<close>

lemma counter_get_update:
  "counter_get (AList.update k v c) w = (if w = k then v else counter_get c w)"
  by (simp add: counter_get_def update_conv')

lemma keys_update: "fst ` set (AList.update k v c) = insert k (fst ` set c)"
  by (simp add: dom_update)

lemma positive_update:
  "positive_counts c \<Longrightarrow> 1 \<le> v \<Longrightarrow> positive_counts (AList.update k v c)"
  by (induction c) (auto simp: positive_counts_def)

lemma counter_get_nonneg: "positive_counts c \<Longrightarrow> 0 \<le> counter_get c w"
proof -
  assume p: "positive_counts c"
  show ?thesis
  proof (cases "map_of c w")
    case None
    then show ?thesis by (simp add: counter_get_def)
  next
    case (Some n)
    then have "(w, n) \<in> set c" by (rule map_of_SomeD)
    with p have "1 \<le> n" by (auto simp: positive_counts_def list_all_iff)
    with Some show ?thesis by (simp add: counter_get_def)
  qed
qed

lemma positive_count_elements:
  "positive_counts c \<Longrightarrow> positive_counts (count_elements ws c)"
proof (induction ws arbitrary: c)
  case Nil
  then show ?case by (simp add: count_elements_def)
next
  case (Cons w ws)
  have "positive_counts (AList.update w (counter_get c w + 1) c)"
    using Cons.prems counter_get_nonneg[OF Cons.prems, of w] by (intro positive_update) auto
  from Cons.IH[OF this] show ?case by (simp add: count_elements_def)
qed

lemma positive_get_word_frequency: "positive_counts (get_word_frequency t)"
  unfolding get_word_frequency_def Counter_def
  by (rule positive_count_elements) (simp add: positive_counts_def)

lemma fold_update_props:
  assumes "positive_counts other"
  shows "(positive_counts c \<longrightarrow>
           positive_counts (fold (\<lambda>(elem, count) c. AList.update elem (count + counter_get c elem) c) other c))
       \<and> counter_get c w \<le> counter_get (fold (\<lambda>(elem, count) c. AList.update elem (count + counter_get c elem) c) other c) w
       \<and> fst ` set c \<subseteq> fst ` set (fold (\<lambda>(elem, count) c. AList.update elem (count + counter_get c elem) c) other c)"
  using assms
proof (induction other arbitrary: c)
  case Nil
  show ?case by simp
next
  case (Cons e other)
  obtain k n where e: "e = (k, n)" by (cases e)
  from Cons.prems e have n: "1 \<le> n" and po: "positive_counts other"
    by (simp_all add: positive_counts_def)
  let ?c = "AList.update k (n + counter_get c k) c"
  note ih = Cons.IH[OF po, of ?c]
  have a: "positive_counts c \<Longrightarrow> positive_counts ?c"
    using n counter_get_nonneg[of c k] by (intro positive_update) auto
  have b: "counter_get c w \<le> counter_get ?c w"
    using n by (simp add: counter_get_update)
  have c: "fst ` set c \<subseteq> fst ` set ?c" by (auto simp: keys_update)
  show ?case using ih a b c e by (simp) (meson order_trans subset_trans)
qed

lemma counter_update_positive:
  "positive_counts other \<Longrightarrow> positive_counts c \<Longrightarrow> positive_counts (counter_update c other)"
  using fold_update_props[of other c] by (simp add: counter_update_def)

lemma counter_update_mono:
  assumes "positive_counts other"
  shows "counter_get c w \<le> counter_get (counter_update c other) w"
proof (cases "c = []")
  case True
  then show ?thesis
    using counter_get_nonneg[OF assms, of w] by (simp add: counter_update_def counter_get_def)
next
  case False
  then show ?thesis using fold_update_props[OF assms, of c w] by (simp add: counter_update_def)
qed

lemma counter_update_keys:
  assumes "positive_counts other"
  shows "fst ` set c \<subseteq> fst ` set (counter_update c other)"
  using fold_update_props[OF assms, of c] by (cases "c = []") (simp_all add: counter_update_def)


section \<open>Properties of the crawl\<close>

lemma grows_refl: "grows st st"
  by (simp add: grows_def)

lemma grows_trans: "grows a b \<Longrightarrow> grows b c \<Longrightarrow> grows a c"
  unfolding grows_def by (meson order_trans subset_trans)

lemma grows_step:
  "grows st (st\<lparr>visited := insert a (visited st), printed := p,
                 word_frequency := counter_update (word_frequency st) (get_word_frequency t)\<rparr>)"
  using counter_update_mono[OF positive_get_word_frequency]
        counter_update_keys[OF positive_get_word_frequency]
  by (auto simp: grows_def)

lemma grows_visit: "grows st (st\<lparr>visited := insert a (visited st), printed := p\<rparr>)"
  by (auto simp: grows_def)

text \<open>
  Every call of the crawl, and every run of its loop over the links, only grows the
  state. The induction follows the recursion of the two functions.
\<close>

lemma crawl_grows:
  "crawl_wikipedia_article n fetch article depth st = Some st' \<Longrightarrow> grows st st'"
  "crawl_links n fetch links depth st = Some st' \<Longrightarrow> grows st st'"
proof (induction n fetch article depth st and n fetch links depth st
       arbitrary: st' and st' rule: crawl_wikipedia_article_crawl_links.induct)
  case (1 fetch article depth st)
  then show ?case by simp
next
  case (2 n fetch article depth st)
  show ?case
  proof (cases "depth = 0 \<or> article \<in> visited st")
    case True
    with "2.prems" show ?thesis by (auto simp: grows_refl split: if_splits)
  next
    case False
    let ?st1 = "st\<lparr>visited := insert article (visited st),
                    printed := printed st @ [(article, depth)]\<rparr>"
    show ?thesis
    proof (cases "fetch article")
      case None
      with False "2.prems" have "st' = ?st1" by (simp add: Let_def)
      then show ?thesis by (simp add: grows_visit)
    next
      case (Some page)
      obtain t links where page: "page = (t, links)" by (cases page)
      let ?st2 = "?st1\<lparr>word_frequency :=
                    counter_update (word_frequency ?st1) (get_word_frequency t)\<rparr>"
      from False Some page "2.prems"
      have run: "crawl_links n fetch links depth ?st2 = Some st'" by (simp add: Let_def)
      have "grows ?st2 st'"
        using "2.IH"[OF _ _ refl Some page[symmetric] run] False by simp
      moreover have "grows st ?st2"
        using grows_step[where st=st and a=article and t=t] by simp
      ultimately show ?thesis by (rule grows_trans[rotated])
    qed
  qed
next
  case (3 n fetch depth st)
  then show ?case by (simp add: grows_refl)
next
  case (4 n fetch link links depth st)
  show ?case
  proof (cases "link \<notin> visited st")
    case True
    with "4.prems" obtain st1 where
      one: "crawl_wikipedia_article n fetch link (depth - 1) st = Some st1" and
      rest: "crawl_links n fetch links depth st1 = Some st'"
      by (auto split: option.splits)
    from "4.IH"(1)[OF True one] "4.IH"(2)[OF True one rest] show ?thesis
      by (rule grows_trans)
  next
    case False
    with "4.prems" "4.IH"(3) show ?thesis by simp
  qed
qed


text \<open>The crawl keeps the two invariants.\<close>

lemma crawl_keeps:
  "crawl_wikipedia_article n fetch article depth st = Some st' \<Longrightarrow>
     (fetched_once st \<longrightarrow> fetched_once st')
     \<and> (positive_counts (word_frequency st) \<longrightarrow> positive_counts (word_frequency st'))"
  "crawl_links n fetch links depth st = Some st' \<Longrightarrow>
     (fetched_once st \<longrightarrow> fetched_once st')
     \<and> (positive_counts (word_frequency st) \<longrightarrow> positive_counts (word_frequency st'))"
proof (induction n fetch article depth st and n fetch links depth st
       arbitrary: st' and st' rule: crawl_wikipedia_article_crawl_links.induct)
  case (1 fetch article depth st)
  then show ?case by simp
next
  case (2 n fetch article depth st)
  show ?case
  proof (cases "depth = 0 \<or> article \<in> visited st")
    case True
    with "2.prems" show ?thesis by (auto split: if_splits)
  next
    case False
    let ?st1 = "st\<lparr>visited := insert article (visited st),
                    printed := printed st @ [(article, depth)]\<rparr>"
    have f1: "fetched_once st \<Longrightarrow> fetched_once ?st1"
      using False by (auto simp: fetched_once_def)
    show ?thesis
    proof (cases "fetch article")
      case None
      with False "2.prems" have "st' = ?st1" by (simp add: Let_def)
      then show ?thesis using f1 by simp
    next
      case (Some page)
      obtain t links where page: "page = (t, links)" by (cases page)
      let ?st2 = "?st1\<lparr>word_frequency :=
                    counter_update (word_frequency ?st1) (get_word_frequency t)\<rparr>"
      from False Some page "2.prems"
      have run: "crawl_links n fetch links depth ?st2 = Some st'" by (simp add: Let_def)
      have ih: "(fetched_once ?st2 \<longrightarrow> fetched_once st')
          \<and> (positive_counts (word_frequency ?st2) \<longrightarrow> positive_counts (word_frequency st'))"
        using "2.IH"[OF _ _ refl Some page[symmetric] run] False by simp
      have f2: "fetched_once st \<Longrightarrow> fetched_once ?st2"
        using f1 by (simp add: fetched_once_def)
      have p2: "positive_counts (word_frequency st) \<Longrightarrow> positive_counts (word_frequency ?st2)"
        using counter_update_positive[OF positive_get_word_frequency] by simp
      from ih f2 p2 show ?thesis by blast
    qed
  qed
next
  case (3 n fetch depth st)
  then show ?case by simp
next
  case (4 n fetch link links depth st)
  show ?case
  proof (cases "link \<notin> visited st")
    case True
    with "4.prems" obtain st1 where
      one: "crawl_wikipedia_article n fetch link (depth - 1) st = Some st1" and
      rest: "crawl_links n fetch links depth st1 = Some st'"
      by (auto split: option.splits)
    from "4.IH"(1)[OF True one] "4.IH"(2)[OF True one rest] show ?thesis
      by blast
  next
    case False
    with "4.prems" "4.IH"(3) show ?thesis by simp
  qed
qed

lemma crawl_more_fuel:
  "crawl_wikipedia_article n fetch article depth st = Some st' \<Longrightarrow>
     crawl_wikipedia_article (Suc n) fetch article depth st = Some st'"
  "crawl_links n fetch links depth st = Some st' \<Longrightarrow>
     crawl_links (Suc n) fetch links depth st = Some st'"
proof (induction n fetch article depth st and n fetch links depth st
       arbitrary: st' and st' rule: crawl_wikipedia_article_crawl_links.induct)
  case (1 fetch article depth st)
  then show ?case by simp
next
  case (2 n fetch article depth st)
  show ?case
  proof (cases "depth = 0 \<or> article \<in> visited st")
    case True
    with "2.prems" show ?thesis by (auto split: if_splits)
  next
    case False
    let ?st1 = "st\<lparr>visited := insert article (visited st),
                    printed := printed st @ [(article, depth)]\<rparr>"
    show ?thesis
    proof (cases "fetch article")
      case None
      with False "2.prems" show ?thesis by (simp add: Let_def)
    next
      case (Some page)
      obtain t links where page: "page = (t, links)" by (cases page)
      let ?st2 = "?st1\<lparr>word_frequency :=
                    counter_update (word_frequency ?st1) (get_word_frequency t)\<rparr>"
      from False Some page "2.prems"
      have run: "crawl_links n fetch links depth ?st2 = Some st'" by (simp add: Let_def)
      have "crawl_links (Suc n) fetch links depth ?st2 = Some st'"
        using "2.IH"[OF _ _ refl Some page[symmetric] run] False by simp
      with False Some page show ?thesis
        using crawl_wikipedia_article.simps(2)[of "Suc n" fetch article depth st]
        by (simp add: Let_def)
    qed
  qed
next
  case (3 n fetch depth st)
  then show ?case by simp
next
  case (4 n fetch link links depth st)
  show ?case
  proof (cases "link \<notin> visited st")
    case True
    with "4.prems" obtain st1 where
      one: "crawl_wikipedia_article n fetch link (depth - 1) st = Some st1" and
      rest: "crawl_links n fetch links depth st1 = Some st'"
      by (auto split: option.splits)
    from "4.IH"(1)[OF True one] "4.IH"(2)[OF True one rest] True show ?thesis
      by (simp del: crawl_wikipedia_article.simps)
  next
    case False
    with "4.prems" "4.IH"(3) show ?thesis by simp
  qed
qed

lemma crawl_fuel_mono:
  "crawl_wikipedia_article n fetch article depth st = Some st' \<Longrightarrow> n \<le> m \<Longrightarrow>
     crawl_wikipedia_article m fetch article depth st = Some st'"
proof (induction m)
  case 0
  then show ?case by simp
next
  case (Suc m)
  show ?case
  proof (cases "n = Suc m")
    case True
    with Suc.prems show ?thesis by simp
  next
    case False
    with Suc.prems have "n \<le> m" by simp
    from crawl_more_fuel(1)[OF Suc.IH[OF Suc.prems(1) this]] show ?thesis .
  qed
qed


text \<open>
  On a finite link graph a nesting bound above the number of unvisited articles is
  never hit: each nested call has first added an article to the visited set.
\<close>

lemma unvisited_shrinks:
  assumes "finite V" "visited st \<subseteq> visited st'"
  shows "card (V - visited st') \<le> card (V - visited st)"
  using assms by (intro card_mono) auto

lemma crawl_returns:
  "closed_graph fetch V \<Longrightarrow> article \<in> V \<Longrightarrow> card (V - visited st) < n \<Longrightarrow>
     \<exists>st'. crawl_wikipedia_article n fetch article depth st = Some st'"
  "closed_graph fetch V \<Longrightarrow> set links \<subseteq> V \<Longrightarrow> card (V - visited st) \<le> n - 1 \<Longrightarrow>
     \<exists>st'. crawl_links n fetch links depth st = Some st'"
proof (induction n fetch article depth st and n fetch links depth st
       rule: crawl_wikipedia_article_crawl_links.induct)
  case (1 fetch article depth st)
  then show ?case by simp
next
  case (2 n fetch article depth st)
  have fin: "finite V" using "2.prems"(1) by (simp add: closed_graph_def)
  show ?case
  proof (cases "depth = 0 \<or> article \<in> visited st")
    case True
    then show ?thesis by auto
  next
    case False
    let ?st1 = "st\<lparr>visited := insert article (visited st),
                    printed := printed st @ [(article, depth)]\<rparr>"
    show ?thesis
    proof (cases "fetch article")
      case None
      with False show ?thesis by (simp add: Let_def)
    next
      case (Some page)
      obtain t links where page: "page = (t, links)" by (cases page)
      let ?st2 = "?st1\<lparr>word_frequency :=
                    counter_update (word_frequency ?st1) (get_word_frequency t)\<rparr>"
      have sub: "set links \<subseteq> V"
        using "2.prems"(1) Some page by (auto simp: closed_graph_def)
      have "article \<in> V - visited st" using False "2.prems"(2) by simp
      then have "card (V - insert article (visited st)) < card (V - visited st)"
        using fin by (intro psubset_card_mono) auto
      with "2.prems"(3) have less: "card (V - visited ?st2) \<le> n - 1" by simp
      have "\<exists>st'. crawl_links n fetch links depth ?st2 = Some st'"
        using "2.IH"[OF _ _ refl Some page[symmetric] "2.prems"(1) sub less] False by simp
      with False Some page show ?thesis by (simp add: Let_def)
    qed
  qed
next
  case (3 n fetch depth st)
  then show ?case by simp
next
  case (4 n fetch link links depth st)
  have fin: "finite V" using "4.prems"(1) by (simp add: closed_graph_def)
  from "4.prems"(2) have lV: "link \<in> V" and rest: "set links \<subseteq> V" by simp_all
  show ?case
  proof (cases "link \<notin> visited st")
    case True
    with lV have "link \<in> V - visited st" by simp
    then have "0 < card (V - visited st)" using fin by (metis card_gt_0_iff empty_iff finite_Diff)
    with "4.prems"(3) have "card (V - visited st) < n" by simp
    from "4.IH"(1)[OF True "4.prems"(1) lV this]
    obtain st1 where one: "crawl_wikipedia_article n fetch link (depth - 1) st = Some st1"
      by blast
    have "visited st \<subseteq> visited st1" using crawl_grows(1)[OF one] by (simp add: grows_def)
    from unvisited_shrinks[OF fin this] "4.prems"(3)
    have "card (V - visited st1) \<le> n - 1" by simp
    from "4.IH"(2)[OF True one "4.prems"(1) rest this] one True show ?thesis by simp
  next
    case False
    with "4.IH"(3)[OF _ "4.prems"(1) rest "4.prems"(3)] show ?thesis by simp
  qed
qed

lemma crawled_counts_positive:
  "crawl_wikipedia_article n fetch article depth fresh = Some st \<Longrightarrow>
     positive_counts (word_frequency st)"
  using crawl_keeps(1)[of n fetch article depth fresh st]
  by (simp add: fresh_def positive_counts_def)

text \<open>
  C3. With depth 0 the crawl returns at once and leaves the state as it was: started on
  an empty visited set and an empty table, both stay empty and nothing is fetched,
  whether or not the root was visited before.
\<close>

theorem depth_zero_returns_at_once:
  "crawl_wikipedia_article (Suc n) fetch article 0 st = Some st
   \<and> crawl_wikipedia_article (Suc n) fetch article 0 fresh
       = Some \<lparr>visited = {}, word_frequency = [], printed = []\<rparr>"
  by (simp add: fresh_def)

text \<open>
  C6. When the source has no document for the root (and the root is fetched at all: the
  depth is not 0 and the root is not yet visited), the crawl returns normally, the
  table is what it was, so an empty table stays empty, and the root has joined the
  visited set after its single fetch.
\<close>

theorem root_not_found:
  assumes "fetch article = None" and "depth \<noteq> 0" and "article \<notin> visited st"
  shows "\<exists>st'. crawl_wikipedia_article (Suc n) fetch article depth st = Some st'
           \<and> word_frequency st' = word_frequency st
           \<and> visited st' = insert article (visited st)
           \<and> printed st' = printed st @ [(article, depth)]"
  using assms by (simp add: Let_def)

theorem root_not_found_witness:
  "(\<lambda>a. None) ''Nowhere'' = (None :: (string \<times> string list) option) \<and> (3::int) \<noteq> 0
   \<and> ''Nowhere'' \<notin> visited fresh
   \<and> (\<exists>st'. crawl_wikipedia_article (Suc 0) (\<lambda>a. None) ''Nowhere'' 3 fresh = Some st'
           \<and> word_frequency st' = []
           \<and> visited st' = {''Nowhere''}
           \<and> printed st' = [(''Nowhere'', 3)])"
  using root_not_found [of "\<lambda>a. None" "''Nowhere''" 3 fresh 0]
  by (simp add: fresh_def)

text \<open>
  C4. On every finite link graph, cyclic or not, and for every depth, also a negative
  one, the crawl terminates: with a nesting bound above the number of unvisited
  articles it returns a state, the same for every larger bound. No article is requested
  twice: the titles of the requests are distinct, and each is in the visited set.
\<close>

theorem crawl_terminates_fetching_once:
  assumes "finite V" and "\<forall>a t links. fetch a = Some (t, links) \<longrightarrow> set links \<subseteq> V"
      and "article \<in> V"
      and "distinct (map fst (printed st))" and "set (map fst (printed st)) \<subseteq> visited st"
  shows "\<exists>st'. (\<forall>k. crawl_wikipedia_article (Suc (card (V - visited st)) + k) fetch article depth st
                     = Some st')
           \<and> distinct (map fst (printed st'))
           \<and> set (map fst (printed st')) \<subseteq> visited st'"
proof -
  have g: "closed_graph fetch V" using assms(1,2) by (simp add: closed_graph_def)
  obtain st' where
    run: "crawl_wikipedia_article (Suc (card (V - visited st))) fetch article depth st = Some st'"
    using crawl_returns(1)[OF g assms(3), of st "Suc (card (V - visited st))" depth] by auto
  have "fetched_once st" using assms(4,5) by (simp add: fetched_once_def)
  with crawl_keeps(1)[OF run] have "fetched_once st'" by simp
  moreover have
    "crawl_wikipedia_article (Suc (card (V - visited st)) + k) fetch article depth st = Some st'"
    for k by (rule crawl_fuel_mono[OF run]) simp
  ultimately show ?thesis by (auto simp: fetched_once_def)
qed

theorem crawl_terminates_fetching_once_witness:
  "crawl_wikipedia_article 3 two_cycle ''A'' (- 1) fresh
     = Some \<lparr>visited = {''A'', ''B''},
             word_frequency = [(''alpha'', 1), (''beta'', 2)],
             printed = [(''A'', - 1), (''B'', - 2)]\<rparr>
   \<and> distinct (map fst [(''A'', - 1 :: int), (''B'', - 2)])"
proof -
  let ?V = "{''A'', ''B''}"
  have f: "finite ?V" by simp
  have c: "\<forall>a t links. two_cycle a = Some (t, links) \<longrightarrow> set links \<subseteq> ?V"
    by (auto simp: two_cycle_def split: if_splits)
  have a: "''A'' \<in> ?V" by simp
  have d: "distinct (map fst (printed fresh))" "set (map fst (printed fresh)) \<subseteq> visited fresh"
    by (simp_all add: fresh_def)
  have n: "Suc (card (?V - visited fresh)) + 0 = 3" by (simp add: fresh_def)
  from crawl_terminates_fetching_once[OF f c a d, of "- 1"] obtain st' where
    run: "\<forall>k. crawl_wikipedia_article (Suc (card (?V - visited fresh)) + k) two_cycle ''A'' (- 1) fresh
           = Some st'"
    and once: "distinct (map fst (printed st'))" by blast
  from run have r3: "crawl_wikipedia_article 3 two_cycle ''A'' (- 1) fresh = Some st'"
    using n by metis
  have val: "crawl_wikipedia_article 3 two_cycle ''A'' (- 1) fresh
     = Some \<lparr>visited = {''A'', ''B''},
             word_frequency = [(''alpha'', 1), (''beta'', 2)],
             printed = [(''A'', - 1), (''B'', - 2)]\<rparr>"
    by code_simp
  with r3 once show ?thesis by simp
qed

text \<open>
  C10. A crawl that returns has only grown its accumulators: the visited set after the
  call contains the one before, no key has left the table, and no word has a smaller
  count than before, whatever the depth, the visited set and the answers of the source.
\<close>

theorem crawl_only_grows:
  assumes "crawl_wikipedia_article n fetch article depth st = Some st'"
  shows "visited st \<subseteq> visited st'
       \<and> (\<forall>w. counter_get (word_frequency st) w \<le> counter_get (word_frequency st') w)
       \<and> fst ` set (word_frequency st) \<subseteq> fst ` set (word_frequency st')"
  using crawl_grows(1)[OF assms] by (simp add: grows_def)

theorem crawl_only_grows_witness:
  "crawl_wikipedia_article 3 two_cycle ''A'' 2
       \<lparr>visited = {''X''}, word_frequency = [(''beta'', 4)], printed = []\<rparr>
     = Some \<lparr>visited = {''X'', ''A'', ''B''},
             word_frequency = [(''beta'', 6), (''alpha'', 1)],
             printed = [(''A'', 2), (''B'', 1)]\<rparr>
   \<and> {''X''} \<subseteq> {''X'', ''A'', ''B''}
   \<and> counter_get [(''beta'', 4)] ''beta'' \<le> counter_get [(''beta'', 6), (''alpha'', 1)] ''beta''
   \<and> fst ` set [(''beta'', 4 :: int)] \<subseteq> fst ` set [(''beta'', 6 :: int), (''alpha'', 1)]"
proof -
  have run: "crawl_wikipedia_article 3 two_cycle ''A'' 2
       \<lparr>visited = {''X''}, word_frequency = [(''beta'', 4)], printed = []\<rparr>
     = Some \<lparr>visited = {''X'', ''A'', ''B''},
             word_frequency = [(''beta'', 6), (''alpha'', 1)],
             printed = [(''A'', 2), (''B'', 1)]\<rparr>"
    by code_simp
  from crawl_only_grows[OF run] show ?thesis using run by simp
qed

section \<open>Properties of the post-processing stages\<close>

text \<open>
  C7. The percentile filter keeps exactly the entries whose percentage is at least the
  threshold: an entry is in the result if and only if it is in the input with
  \<open>perc \<ge> percentile\<close>; an entry strictly below the threshold is dropped and an entry
  exactly at the threshold is kept.
\<close>

theorem percentile_threshold_inclusive:
  "((word, count, perc) \<in> set (apply_percentile_threshold es percentile)
      \<longleftrightarrow> (word, count, perc) \<in> set es \<and> perc \<ge> percentile)
   \<and> apply_percentile_threshold [(word, count, perc)] percentile
       = (if perc < percentile then [] else [(word, count, perc)])
   \<and> apply_percentile_threshold [(word, count, percentile)] percentile
       = [(word, count, percentile)]"
  by (auto simp: apply_percentile_threshold_def)

text \<open>Deleting the ignore words one by one is one filter on the keys.\<close>

lemma remove_step:
  "(if w \<in> set (map fst tab) then AList.delete w tab else tab) = filter (\<lambda>e. fst e \<noteq> w) tab"
proof -
  have d: "AList.delete w tab = filter (\<lambda>e. fst e \<noteq> w) tab"
    by (induction tab) auto
  have "w \<notin> set (map fst tab) \<Longrightarrow> filter (\<lambda>e. fst e \<noteq> w) tab = tab"
    by (induction tab) auto
  with d show ?thesis by simp
qed

lemma fold_filter_keys:
  "fold (\<lambda>w. filter (\<lambda>e. fst e \<noteq> w)) ws tab = filter (\<lambda>e. fst e \<notin> set ws) tab"
proof (induction ws arbitrary: tab)
  case Nil
  show ?case by simp
next
  case (Cons w ws)
  have "filter (\<lambda>e. fst e \<notin> set ws) (filter (\<lambda>e. fst e \<noteq> w) tab)
      = filter (\<lambda>e. fst e \<notin> set (w # ws)) tab"
    by (induction tab) auto
  with Cons.IH show ?case by simp
qed

lemma remove_ignored_with_filter:
  "remove_ignored_with str_lower ig tab = filter (\<lambda>e. fst e \<notin> set (map str_lower ig)) tab"
  unfolding remove_ignored_with_def remove_step by (rule fold_filter_keys)

lemma remove_ignored_filter:
  "remove_ignored ig tab = filter (\<lambda>e. fst e \<notin> set (map lower ig)) tab"
  unfolding remove_ignored_def by (rule remove_ignored_with_filter)

text \<open>
  C9. Exclusion is idempotent: deleting the words of an ignore list from a table from
  which they were already deleted changes nothing.
\<close>

theorem exclusion_idempotent:
  "remove_ignored ignore_list (remove_ignored ignore_list tab) = remove_ignored ignore_list tab"
  by (simp add: remove_ignored_filter)

lemma total_ge_length: "positive_counts tab \<Longrightarrow> int (length tab) \<le> counter_total tab"
  by (induction tab) (auto simp: positive_counts_def counter_total_def)

lemma total_pos: "positive_counts tab \<Longrightarrow> tab \<noteq> [] \<Longrightarrow> 0 < counter_total tab"
  using total_ge_length[of tab] by (cases tab) auto

lemma normalize_with_ok:
  "positive_counts tab \<Longrightarrow>
     normalize_with float_pct tab
       = Inr (map (\<lambda>(word, count). (word, count, float_pct count (counter_total tab))) tab)"
  using total_pos[of tab] by (auto simp: normalize_with_def Let_def)

lemma normalize_ok:
  "positive_counts tab \<Longrightarrow>
     normalize_word_frequency tab
       = Inr (map (\<lambda>(word, count). (word, count, percentage count (counter_total tab))) tab)"
  unfolding normalize_word_frequency_def by (rule normalize_with_ok)

lemma sum_percentages:
  "sum_list (map (\<lambda>e. percentage (snd e) T) tab) = percentage (counter_total tab) T"
  by (induction tab) (simp_all add: percentage_def counter_total_def add_divide_distrib distrib_right)

lemma positive_filter: "positive_counts tab \<Longrightarrow> positive_counts (filter P tab)"
  by (simp add: positive_counts_def list_all_iff)

lemma total_split:
  "counter_total tab = counter_total (filter P tab) + counter_total (filter (\<lambda>e. \<not> P e) tab)"
  by (induction tab) (simp_all add: counter_total_def)

text \<open>
  The source has no test of the total: the division is reached as soon as the table has
  an item. A counter outside the invariant, with a key of count 0, raises.
\<close>

lemma normalize_unguarded: "normalize_word_frequency [(''a'', 0)] = Inl ZeroDivisionError"
  by (simp add: normalize_word_frequency_def normalize_with_def counter_total_def)

text \<open>
  C5. On every frequency table (every present count at least 1) \<open>normalize\<close> returns a
  mapping and never divides by zero; when the total is 0, the case of the empty crawl,
  the mapping is empty.
\<close>

theorem normalize_zero_total:
  assumes "positive_counts tab"
  shows "(\<exists>es. normalize_word_frequency tab = Inr es)
       \<and> (counter_total tab = 0 \<longrightarrow> normalize_word_frequency tab = Inr [])"
proof -
  have "tab = []" if "counter_total tab = 0" using that total_pos[OF assms] by auto
  then show ?thesis using normalize_ok[OF assms] by auto
qed

theorem normalize_zero_total_witness:
  "positive_counts [] \<and> counter_total [] = 0 \<and> normalize_word_frequency [] = Inr []
   \<and> positive_counts [(''a'', 2)] \<and> (\<exists>es. normalize_word_frequency [(''a'', 2)] = Inr es)"
proof -
  have p: "positive_counts []" "positive_counts [(''a'', 2)]" by (simp_all add: positive_counts_def)
  have z: "counter_total [] = 0" by (simp add: counter_total_def)
  from normalize_zero_total[OF p(1)] z have "normalize_word_frequency [] = Inr []" by blast
  with normalize_zero_total[OF p(2)] p z show ?thesis by blast
qed

text \<open>
  C8. For every non-empty frequency table the percentages that \<open>normalize\<close> produces sum
  to 100, each being \<open>100 * count / total\<close> with \<open>total\<close> the sum of all counts, one
  entry per word of the table. The arithmetic is exact here; the rounding of floats is
  not modelled.
\<close>

theorem percentages_sum_to_100:
  assumes "positive_counts tab" and "tab \<noteq> []"
  shows "\<exists>es. normalize_word_frequency tab = Inr es
           \<and> sum_list (map (\<lambda>(word, count, perc). perc) es) = 100
           \<and> map fst es = map fst tab
           \<and> (\<forall>word count perc. (word, count, perc) \<in> set es \<longleftrightarrow>
                 (word, count) \<in> set tab \<and> perc = 100 * of_int count / of_int (counter_total tab))"
proof -
  let ?es = "map (\<lambda>(word, count). (word, count, percentage count (counter_total tab))) tab"
  have T: "counter_total tab \<noteq> 0" using total_pos[OF assms] by simp
  have "sum_list (map (\<lambda>(word, count, perc). perc) ?es)
      = sum_list (map (\<lambda>e. percentage (snd e) (counter_total tab)) tab)"
    by (simp add: comp_def case_prod_unfold)
  also have "\<dots> = percentage (counter_total tab) (counter_total tab)"
    by (rule sum_percentages)
  also have "\<dots> = 100" using T by (simp add: percentage_def)
  finally have s: "sum_list (map (\<lambda>(word, count, perc). perc) ?es) = 100" .
  have k: "map fst ?es = map fst tab" by (simp add: comp_def case_prod_unfold)
  have m: "(word, count, perc) \<in> set ?es \<longleftrightarrow>
      (word, count) \<in> set tab \<and> perc = 100 * of_int count / of_int (counter_total tab)"
    for word count perc
  proof -
    have "(word, count, perc) \<in> set ?es \<longleftrightarrow>
        (word, count) \<in> set tab \<and> perc = percentage count (counter_total tab)"
      by force
    then show ?thesis by (simp add: percentage_def mult.commute)
  qed
  show ?thesis using normalize_ok[OF assms(1)] s k m by simp
qed

theorem percentages_sum_to_100_witness:
  "positive_counts [(''apple'', 1), (''orange'', 1)]
   \<and> normalize_word_frequency [(''apple'', 1), (''orange'', 1)]
       = Inr [(''apple'', 1, 50), (''orange'', 1, 50)]
   \<and> sum_list (map (\<lambda>(word, count, perc). perc) [(''apple'', 1 :: int, 50 :: rat), (''orange'', 1, 50)]) = 100"
proof -
  let ?t = "[(''apple'', 1 :: int), (''orange'', 1)]"
  have p: "positive_counts ?t" by (simp add: positive_counts_def)
  have n: "?t \<noteq> []" by simp
  have v: "normalize_word_frequency ?t = Inr [(''apple'', 1, 50), (''orange'', 1, 50)]"
    by code_simp
  from percentages_sum_to_100[OF p n] v p show ?thesis by auto
qed

text \<open>
  C1, as stated, fails: the source deletes the ignored words from the counter before it
  normalises, so the percentages are relative to what is left. With the words \<open>a\<close> and
  \<open>b\<close> once each and \<open>a\<close> ignored, \<open>b\<close> gets 100, not the 50 of the order given in the
  specification. The quotients 1/1 and 1/2 and their products with 100 are exact in
  floating point, so rounding plays no part here.
\<close>

theorem pipeline_counterexample:
  "do_POST_pipeline [(''a'', 1), (''b'', 1)] [''A''] 1 = Inr [(''b'', 1, 100)]
   \<and> spec_pipeline [(''a'', 1), (''b'', 1)] [''A''] 1 = Inr [(''b'', 1, 50)]
   \<and> percentage 1 (counter_total [(''a'', 1), (''b'', 1)]) = 50"
  by code_simp

text \<open>
  Rounding can decide the threshold: a word with 29 occurrences of 100 is dropped at the
  threshold 29 as soon as the computed percentage falls below 29, as the source's
  28.999999999999996 does.
\<close>

lemma rounding_decides_threshold:
  assumes "float_pct 29 100 < 29" and "float_pct 71 100 \<ge> 29"
  shows "do_POST_pipeline_with float_pct str_lower [(''a'', 29), (''b'', 71)] [] 29
           = Inr [(''b'', 71, float_pct 71 100)]"
  using assms
  by (simp add: do_POST_pipeline_with_def normalize_with_def remove_ignored_with_def
      counter_total_def apply_percentile_threshold_def sort_by_count_def)

text \<open>
  C1, amended. The stages are applied in the order exclude, normalise, percentile
  filter, sort by decreasing count. For every frequency table and every ignore list the
  request succeeds, and the percentage attached to each word that survives exclusion is
  the floating-point value of \<open>(count / total) * 100\<close>, where \<open>total\<close> is the total count
  that remains after exclusion: the total of the table less the counts of the removed
  words. The result holds exactly the words of the table that are not in the
  lower-cased ignore list and whose percentage, so computed, reaches the threshold,
  each with its count, in the order of decreasing count. This holds whatever the
  rounding of the two floating-point operations is and whatever \<open>str.lower\<close> makes of
  the ignore words.
\<close>

theorem pipeline_percentages_after_exclusion:
  assumes "positive_counts tab"
  shows "\<exists>es. do_POST_pipeline_with float_pct str_lower tab ignore_list percentile = Inr es
     \<and> (\<forall>word count perc. (word, count, perc) \<in> set es \<longleftrightarrow>
           (word, count) \<in> set tab \<and> word \<notin> set (map str_lower ignore_list)
           \<and> perc = float_pct count
                      (counter_total (remove_ignored_with str_lower ignore_list tab))
           \<and> perc \<ge> percentile)
     \<and> counter_total (remove_ignored_with str_lower ignore_list tab)
         = counter_total tab
           - counter_total (filter (\<lambda>e. fst e \<in> set (map str_lower ignore_list)) tab)
     \<and> sorted (map (\<lambda>(word, count, perc). - count) es)"
proof -
  let ?kept = "remove_ignored_with str_lower ignore_list tab"
  let ?norm = "map (\<lambda>(word, count). (word, count, float_pct count (counter_total ?kept))) ?kept"
  let ?es = "sort_by_count (apply_percentile_threshold ?norm percentile)"
  have pk: "positive_counts ?kept"
    using assms by (simp add: remove_ignored_with_filter positive_filter)
  have run: "do_POST_pipeline_with float_pct str_lower tab ignore_list percentile = Inr ?es"
    by (simp add: do_POST_pipeline_with_def normalize_with_ok[OF pk])
  have mem: "(word, count, perc) \<in> set ?es \<longleftrightarrow>
           (word, count) \<in> set tab \<and> word \<notin> set (map str_lower ignore_list)
           \<and> perc = float_pct count (counter_total ?kept) \<and> perc \<ge> percentile"
    for word count perc
    by (auto simp: sort_by_count_def apply_percentile_threshold_def remove_ignored_with_filter)
  have tot: "counter_total ?kept
      = counter_total tab
        - counter_total (filter (\<lambda>e. fst e \<in> set (map str_lower ignore_list)) tab)"
    using total_split[of tab "\<lambda>e. fst e \<in> set (map str_lower ignore_list)"]
    by (simp add: remove_ignored_with_filter)
  have srt: "sorted (map (\<lambda>(word, count, perc). - count) ?es)"
    by (simp add: sort_by_count_def)
  show ?thesis using run mem tot srt by blast
qed

theorem pipeline_percentages_after_exclusion_witness:
  "positive_counts [(''a'', 1 :: int), (''b'', 1), (''c'', 2), (''d'', 1)]
   \<and> do_POST_pipeline_with percentage lower
         [(''a'', 1), (''b'', 1), (''c'', 2), (''d'', 1)] [''A''] 1
       = Inr [(''c'', 2, 50), (''b'', 1, 25), (''d'', 1, 25)]
   \<and> counter_total
         (remove_ignored_with lower [''A''] [(''a'', 1 :: int), (''b'', 1), (''c'', 2), (''d'', 1)])
       = 4
   \<and> percentage 2 4 = 50"
proof -
  let ?t = "[(''a'', 1 :: int), (''b'', 1), (''c'', 2), (''d'', 1)]"
  have p: "positive_counts ?t" by (simp add: positive_counts_def)
  have v: "do_POST_pipeline_with percentage lower ?t [''A''] 1
       = Inr [(''c'', 2, 50), (''b'', 1, 25), (''d'', 1, 25)]"
    by code_simp
  have r: "counter_total (filter (\<lambda>e. fst e \<in> set (map lower [''A''])) ?t) = 1"
    by code_simp
  have t: "counter_total ?t = 5" by code_simp
  have q: "percentage 2 4 = 50" by (simp add: percentage_def)
  from pipeline_percentages_after_exclusion[OF p, of percentage lower "[''A'']" 1] r t
  have "counter_total (remove_ignored_with lower [''A''] ?t) = 4" by auto
  with p v q show ?thesis by simp
qed

end
